theory Spec2Isabelle
  imports Main "HOL-Library.Word"
begin

section \<open>A shallow embedding of the TCP proxy\<close>

text \<open>
  The repository has two packages: \<^verbatim>\<open>loadBalancer\<close> (the server pool, round-robin
  selection and the health checker) and \<^verbatim>\<open>server\<close> (listeners, connection routing,
  dialling and shutdown). Both live in \<^verbatim>\<open>pkg/loadBalancer/lb.go\<close> as given.

  Conventions of the embedding:
  \<^item> Go's \<^verbatim>\<open>int\<close> values that occur here are lengths and indices of a slice, so they are
    modelled as \<^typ>\<open>nat\<close>; the cursor \<^verbatim>\<open>current\<close> is a \<^verbatim>\<open>uint64\<close> and is a \<^typ>\<open>64 word\<close>,
    so that \<^verbatim>\<open>atomic.AddUint64\<close> wraps as it does in Go.
  \<^item> A \<^verbatim>\<open>*Backend\<close> handed out by the pool is represented by its position in
    \<^verbatim>\<open>s.backends\<close>: \<^verbatim>\<open>NewServerPool\<close> allocates one \<^verbatim>\<open>Backend\<close> per position and nothing
    else ever stores a \<^verbatim>\<open>*Backend\<close>, so the position is the pointer's identity.
    \<^verbatim>\<open>nil\<close> is \<^term>\<open>None\<close>.
  \<^item> A run-time panic is a value of type \<open>panic\<close>, returned as \<^term>\<open>Inl\<close>.
  \<^item> Mutexes and atomics make each method below one atomic step; the methods are modelled
    as functions from the state before to the state after.
  \<^item> What the program does to the outside world (log lines, network calls) is appended to a
    trace of events; what the outside world answers is given by oracles passed as arguments.
\<close>

subsection \<open>Panics, durations and events\<close>

datatype panic = IntegerDivideByZero | NilPointerDereference | CloseOfClosedChannel

text \<open>\<^verbatim>\<open>time.Duration\<close> counts nanoseconds.\<close>

type_synonym Duration = int

definition Second :: Duration where
  "Second = 1000000000"

text \<open>
  Events of package \<^verbatim>\<open>loadBalancer\<close>. \<open>Log\<close> carries the fixed text of the log line (the
  rendering of an \<^verbatim>\<open>error\<close> value is left out). \<open>DialTimeout addr d ok\<close> is one call of
  \<^verbatim>\<open>net.DialTimeout("tcp", addr, d)\<close> and whether it returned a connection.
\<close>

datatype event =
    Log string
  | DialTimeout string Duration bool
  | ProbeConnClose
  | NewTicker Duration
  | TickerRecv

text \<open>
  The network as the health checker sees it: \<open>net k addr d\<close> tells whether a dial of
  \<open>addr\<close> with timeout \<open>d\<close> succeeds when \<open>k\<close> events have happened so far.
\<close>

type_synonym dialer = "nat \<Rightarrow> string \<Rightarrow> Duration \<Rightarrow> bool"

subsection \<open>Package loadBalancer: data\<close>

record Backend =
  target :: string
  Alive :: bool

record ServerPool =
  backends :: "Backend list"
  current :: "64 word"

definition NewBackend :: "string \<Rightarrow> Backend" where
  "NewBackend tgt = \<lparr>target = tgt, Alive = True\<rparr>"

text \<open>The loop of \<^verbatim>\<open>NewServerPool\<close> appends one backend per target, in order.\<close>

definition NewServerPool :: "string list \<Rightarrow> ServerPool" where
  "NewServerPool targets =
     \<lparr>backends = foldl (\<lambda>bs val. bs @ [NewBackend val]) [] targets, current = 0\<rparr>"

definition SetAlive :: "Backend \<Rightarrow> bool \<Rightarrow> Backend" where
  "SetAlive b alive = b\<lparr>Alive := alive\<rparr>"

definition IsAlive :: "Backend \<Rightarrow> bool" where
  "IsAlive b = Alive b"


subsection \<open>Round-robin selection\<close>

text \<open>
  \<^verbatim>\<open>NextIndex\<close>: \<^verbatim>\<open>atomic.AddUint64(&s.current, 1) % uint64(bel)\<close>. The addition is done
  (and stored) before the remainder is taken, so the cursor has moved even when the
  remainder panics on an empty pool. The length of a slice is a non-negative \<^verbatim>\<open>int\<close>, so
  \<^verbatim>\<open>uint64(bel)\<close> is that length and the remainder is the one of the natural numbers.
\<close>

definition NextIndex :: "ServerPool \<Rightarrow> (panic + nat) \<times> ServerPool" where
  "NextIndex s =
     (let bel = length (backends s);
          c = current s + 1;
          s' = s\<lparr>current := c\<rparr>
      in if bel = 0 then (Inl IntegerDivideByZero, s') else (Inr (unat c mod bel), s'))"

text \<open>
  The \<^verbatim>\<open>for i := next; i < l; i++\<close> loop of \<^verbatim>\<open>GetNextPeer\<close>. It is entered only after
  \<^verbatim>\<open>NextIndex\<close> has returned, hence with a non-empty pool, where \<open>idx\<close> is in range.
\<close>

function GetNextPeer_loop ::
  "ServerPool \<Rightarrow> nat \<Rightarrow> nat \<Rightarrow> nat \<Rightarrow> nat option \<times> ServerPool" where
  "GetNextPeer_loop s next l i =
     (if i < l then
        (let idx = i mod length (backends s) in
         if IsAlive (backends s ! idx) then
           (Some idx, if i \<noteq> next then s\<lparr>current := of_nat idx\<rparr> else s)
         else GetNextPeer_loop s next l (i + 1))
      else (None, s))"
  by pat_completeness auto
termination
  by (relation "measure (\<lambda>(s, next, l, i). l - i)") auto

declare GetNextPeer_loop.simps [simp del]

definition GetNextPeer :: "ServerPool \<Rightarrow> (panic + nat option) \<times> ServerPool" where
  "GetNextPeer s =
     (case NextIndex s of
        (Inl p, s') \<Rightarrow> (Inl p, s')
      | (Inr next, s') \<Rightarrow>
          (let l = length (backends s') + next;
               (r, s'') = GetNextPeer_loop s' next l next
           in (Inr r, s'')))"

text \<open>
  \<open>n\<close> consecutive calls of \<^verbatim>\<open>GetNextPeer\<close> on the same pool, with the results in call
  order. A panic ends the sequence (it ends the process).
\<close>

fun GetNextPeer_calls :: "nat \<Rightarrow> ServerPool \<Rightarrow> (panic + nat option) list \<times> ServerPool" where
  "GetNextPeer_calls 0 s = ([], s)"
| "GetNextPeer_calls (Suc n) s =
     (case GetNextPeer s of
        (Inl p, s') \<Rightarrow> ([Inl p], s')
      | (Inr r, s') \<Rightarrow> (let (rs, s'') = GetNextPeer_calls n s' in (Inr r # rs, s'')))"

text \<open>
  The selection rule in the words of the specification: starting at \<open>next\<close>, scan
  \<open>next, next+1, \<dots>, next+size-1\<close>, each taken modulo \<open>size\<close>, and take the first position
  whose backend is alive.
\<close>

definition scan_order :: "nat \<Rightarrow> nat \<Rightarrow> nat list" where
  "scan_order sz next = map (\<lambda>k. (next + k) mod sz) [0..<sz]"

definition select_next_spec :: "ServerPool \<Rightarrow> nat option" where
  "select_next_spec s =
     (let sz = length (backends s);
          next = unat (current s + 1) mod sz
      in find (\<lambda>idx. Alive (backends s ! idx)) (scan_order sz next))"

subsection \<open>Health checker\<close>

text \<open>
  \<^verbatim>\<open>isBackendAlive\<close>: one \<^verbatim>\<open>net.DialTimeout\<close> with a timeout of two seconds; an error is
  logged, a connection is closed again (the deferred \<^verbatim>\<open>conn.Close()\<close>).
\<close>

definition isBackendAlive :: "dialer \<Rightarrow> event list \<Rightarrow> string \<Rightarrow> bool \<times> event list" where
  "isBackendAlive net tr addr =
     (let timeout = 2 * Second;
          ok = net (length tr) addr timeout
      in if \<not> ok then
           (False, tr @ [DialTimeout addr timeout False, Log ''Site unreachable, error: ''])
         else (True, tr @ [DialTimeout addr timeout True, ProbeConnClose]))"

text \<open>The body of \<^verbatim>\<open>for _, b := range s.backends\<close> in \<^verbatim>\<open>healthCheckItr\<close>, over the slice.\<close>

fun healthCheckItr_loop ::
  "dialer \<Rightarrow> Backend list \<Rightarrow> event list \<Rightarrow> Backend list \<times> event list" where
  "healthCheckItr_loop net [] tr = ([], tr)"
| "healthCheckItr_loop net (b # bs) tr =
     (let (alive, tr1) = isBackendAlive net tr (target b);
          b' = SetAlive b alive;
          status = (if \<not> alive then ''down'' else ''up'');
          tr2 = tr1 @ [Log (target b @ '' ['' @ status @ '']'')];
          (bs', tr3) = healthCheckItr_loop net bs tr2
      in (b' # bs', tr3))"

definition healthCheckItr :: "dialer \<Rightarrow> ServerPool \<times> event list \<Rightarrow> ServerPool \<times> event list" where
  "healthCheckItr net st =
     (case st of (s, tr) \<Rightarrow>
        (let (bs', tr') = healthCheckItr_loop net (backends s) tr
         in (s\<lparr>backends := bs'\<rparr>, tr')))"

text \<open>
  \<^verbatim>\<open>HealthCheck\<close> creates a ticker of twenty seconds and then loops forever, running one
  \<^verbatim>\<open>healthCheckItr\<close> per value received from the ticker. The loop has no exit, so the
  function is given fuel: the number of ticks the ticker delivers. The first component of
  the result is \<^term>\<open>None\<close> when the fuel is used up with the loop still waiting in its
  \<^verbatim>\<open>select\<close>, and would be \<open>Some ()\<close> had the function returned.
\<close>

definition healthCheckTick :: "dialer \<Rightarrow> ServerPool \<times> event list \<Rightarrow> ServerPool \<times> event list" where
  "healthCheckTick net st =
     (case st of (s, tr) \<Rightarrow>
        (let (s', tr') = healthCheckItr net (s, tr @ [TickerRecv, Log ''Starting health check...''])
         in (s', tr' @ [Log ''Health check completed''])))"

fun HealthCheck_loop ::
  "dialer \<Rightarrow> nat \<Rightarrow> ServerPool \<times> event list \<Rightarrow> unit option \<times> ServerPool \<times> event list" where
  "HealthCheck_loop net 0 st = (None, st)"
| "HealthCheck_loop net (Suc ticks) st = HealthCheck_loop net ticks (healthCheckTick net st)"

definition HealthCheck ::
  "dialer \<Rightarrow> nat \<Rightarrow> ServerPool \<times> event list \<Rightarrow> unit option \<times> ServerPool \<times> event list" where
  "HealthCheck net ticks st =
     (case st of (s, tr) \<Rightarrow> HealthCheck_loop net ticks (s, tr @ [NewTicker (Second * 20)]))"

text \<open>The dials of a trace, in order: address, timeout and outcome.\<close>

fun dials :: "event list \<Rightarrow> (string \<times> Duration \<times> bool) list" where
  "dials [] = []"
| "dials (DialTimeout a d ok # es) = (a, d, ok) # dials es"
| "dials (e # es) = dials es"

section \<open>Package server\<close>

subsection \<open>The shutdown signal\<close>

text \<open>
  \<^verbatim>\<open>SigChannel\<close> holds the channel \<^verbatim>\<open>C\<close> and a \<^verbatim>\<open>sync.Once\<close>. Of the channel only its being
  closed matters here, of the \<^verbatim>\<open>Once\<close> only whether it has run.
\<close>

record SigChannel =
  C_closed :: bool
  once_done :: bool

definition NewSigChannel :: SigChannel where
  "NewSigChannel = \<lparr>C_closed = False, once_done = False\<rparr>"

text \<open>Go's \<^verbatim>\<open>close(ch)\<close> panics on a channel that is closed already.\<close>

definition close_chan :: "SigChannel \<Rightarrow> panic + SigChannel" where
  "close_chan sc =
     (if C_closed sc then Inl CloseOfClosedChannel else Inr (sc\<lparr>C_closed := True\<rparr>))"

text \<open>
  \<^verbatim>\<open>SafeClose\<close> is \<^verbatim>\<open>sc.once.Do(func() { close(sc.C) })\<close>: the function runs only if the
  \<^verbatim>\<open>Once\<close> has not run before, and the \<^verbatim>\<open>Once\<close> serialises its callers.
\<close>

definition SafeClose :: "SigChannel \<Rightarrow> panic + SigChannel" where
  "SafeClose sc =
     (if once_done sc then Inr sc
      else (case close_chan sc of
              Inl p \<Rightarrow> Inl p
            | Inr sc' \<Rightarrow> Inr (sc'\<lparr>once_done := True\<rparr>)))"

text \<open>
  \<open>n\<close> calls of \<^verbatim>\<open>SafeClose\<close> on the same signal: the state after each call, or the panic
  that ended the sequence.
\<close>

fun SafeClose_calls :: "nat \<Rightarrow> SigChannel \<Rightarrow> (panic + SigChannel) list" where
  "SafeClose_calls 0 sc = []"
| "SafeClose_calls (Suc n) sc =
     (case SafeClose sc of
        Inl p \<Rightarrow> [Inl p]
      | Inr sc' \<Rightarrow> Inr sc' # SafeClose_calls n sc')"

text \<open>How often a sequence of channel states goes from open to closed.\<close>

fun transitions :: "bool \<Rightarrow> bool list \<Rightarrow> nat" where
  "transitions b [] = 0"
| "transitions b (c # cs) = (if \<not> b \<and> c then 1 else 0) + transitions c cs"

text \<open>The signal once closed, and whether a call left the channel closed.\<close>

definition closed_state :: SigChannel where
  "closed_state = \<lparr>C_closed = True, once_done = True\<rparr>"

definition closed_after :: "panic + SigChannel \<Rightarrow> bool" where
  "closed_after r = (case r of Inl p \<Rightarrow> False | Inr sc \<Rightarrow> C_closed sc)"

subsection \<open>Addresses, errors and the outside world\<close>

datatype go_error = EINPROGRESS | Err string

text \<open>\<^verbatim>\<open>net.TCPAddr\<close>; an \<^verbatim>\<open>IP\<close> is a byte slice, \<^verbatim>\<open>nil\<close> being the empty one.\<close>

record TCPAddr =
  IP :: "nat list"
  Port :: int
  Zone :: string

datatype Sockaddr =
    SockaddrInet4 "nat list" int
  | SockaddrInet6 "nat list" int nat

text \<open>
  A \<^verbatim>\<open>*net.TCPListener\<close> is \<^term>\<open>Some i\<close> for the \<open>i\<close>-th listener the process opened, or
  \<^term>\<open>None\<close> for \<^verbatim>\<open>nil\<close>. An accepted connection and a dialled connection are numbered
  likewise.
\<close>

type_synonym listener_ptr = "nat option"

datatype conn = Inbound nat | Outbound nat

datatype server_event =
    SLog string
  | SLogFatal string
  | SPrint string
  | EvResolveTCPAddr string
  | EvListenTCP "TCPAddr option" listener_ptr
  | EvListenerClose nat bool
  | GoHealthCheck string
  | GoServe
  | SysSocket "nat option"
  | SysSetsockopt nat
  | SysConnect nat Sockaddr
  | SysClose nat
  | EvFileConn nat
  | FileClose nat
  | ConnClose conn
  | Relay conn conn

text \<open>
  What the operating system and the \<^verbatim>\<open>net\<close> package answer. Every oracle but the resolver
  takes the number of events so far, so that its answer may change over time.
\<close>

record env =
  net_ResolveTCPAddr :: "string \<Rightarrow> go_error + TCPAddr"
  net_ListenTCP :: "nat \<Rightarrow> TCPAddr option \<Rightarrow> go_error option"
  listener_Close :: "nat \<Rightarrow> nat \<Rightarrow> go_error option"
  syscall_Socket :: "nat \<Rightarrow> go_error + nat"
  syscall_SetsockoptInt :: "nat \<Rightarrow> nat \<Rightarrow> go_error option"
  syscall_Connect :: "nat \<Rightarrow> nat \<Rightarrow> Sockaddr \<Rightarrow> go_error option"
  net_FileConn :: "nat \<Rightarrow> nat \<Rightarrow> go_error + nat"

text \<open>How a function ends: it returns, it panics, or \<^verbatim>\<open>log.Fatal\<close> exits the process.\<close>

datatype 'a outcome = Returned 'a | Panicked panic | Exited int

subsection \<open>Library functions the code calls\<close>

text \<open>\<^verbatim>\<open>strconv.Itoa\<close>: the decimal digits of an integer.\<close>

function digits :: "nat \<Rightarrow> string" where
  "digits n =
     (if n < 10 then [''0123456789'' ! n]
      else digits (n div 10) @ [''0123456789'' ! (n mod 10)])"
  by pat_completeness auto
termination
  by (relation "measure id") auto

declare digits.simps [simp del]

definition Itoa :: "int \<Rightarrow> string" where
  "Itoa i = (if i < 0 then CHR ''-'' # digits (nat (- i)) else digits (nat i))"






subsection \<open>Dialling\<close>





subsection \<open>The server\<close>

record App =
  Name :: string
  Ports :: "int list"
  Targets :: "string list"

text \<open>
  Of \<^verbatim>\<open>Server\<close>, the signal and the two maps; the wait group and the goroutines are the
  subject of the last part.
\<close>

record Server =
  Quit :: SigChannel
  listener :: "listener_ptr \<rightharpoonup> string"
  serverPool :: "string \<rightharpoonup> ServerPool"

text \<open>
  The state \<^verbatim>\<open>NewServer\<close> works on: the server, the number of listeners opened so far and
  the events so far.
\<close>

type_synonym startup = "Server \<times> nat \<times> server_event list"

text \<open>
  The body of \<^verbatim>\<open>for _, port := range app.Ports\<close>. Both errors are logged and nothing else
  is done about them: after a failed resolve \<^verbatim>\<open>addr\<close> is \<^verbatim>\<open>nil\<close> and is passed on to
  \<^verbatim>\<open>net.ListenTCP\<close>; after a failed listen \<^verbatim>\<open>l\<close> is \<^verbatim>\<open>nil\<close> and is stored as a key of the map.
\<close>

definition NewServer_port :: "env \<Rightarrow> string \<Rightarrow> int \<Rightarrow> startup \<Rightarrow> startup" where
  "NewServer_port e name port st =
     (case st of (s, n, tr) \<Rightarrow>
        (let a = ''127.0.0.1:'' @ Itoa port;
             tr1 = tr @ [EvResolveTCPAddr a];
             (addr, tr2) = (case net_ResolveTCPAddr e a of
                              Inl err \<Rightarrow> (None, tr1 @ [SLog ''Unable to resolve IP for port''])
                            | Inr ta \<Rightarrow> (Some ta, tr1));
             (l, n', tr3) = (case net_ListenTCP e (length tr2) addr of
                               Some err \<Rightarrow> (None, n, tr2 @ [EvListenTCP addr None, SLog ''Unable to listen''])
                             | None \<Rightarrow> (Some n, Suc n, tr2 @ [EvListenTCP addr (Some n)]))
         in (s\<lparr>listener := (listener s)(l \<mapsto> name)\<rparr>, n', tr3)))"

fun NewServer_ports :: "env \<Rightarrow> string \<Rightarrow> int list \<Rightarrow> startup \<Rightarrow> startup" where
  "NewServer_ports e name [] st = st"
| "NewServer_ports e name (port # ports) st =
     NewServer_ports e name ports (NewServer_port e name port st)"

text \<open>The body of \<^verbatim>\<open>for _, app := range apps\<close>.\<close>

definition NewServer_app :: "env \<Rightarrow> App \<Rightarrow> startup \<Rightarrow> startup" where
  "NewServer_app e app st =
     (case NewServer_ports e (Name app) (Ports app) st of (s, n, tr) \<Rightarrow>
        (let sp = NewServerPool (Targets app)
         in (s\<lparr>serverPool := (serverPool s)(Name app \<mapsto> sp)\<rparr>, n, tr @ [GoHealthCheck (Name app)])))"

fun NewServer_apps :: "env \<Rightarrow> App list \<Rightarrow> startup \<Rightarrow> startup" where
  "NewServer_apps e [] st = st"
| "NewServer_apps e (app # apps) st = NewServer_apps e apps (NewServer_app e app st)"

definition NewServer :: "env \<Rightarrow> App list \<Rightarrow> startup" where
  "NewServer e apps =
     (case NewServer_apps e apps
             (\<lparr>Quit = NewSigChannel, listener = Map.empty, serverPool = Map.empty\<rparr>, 0, []) of
        (s, n, tr) \<Rightarrow> (s, n, tr @ [GoServe]))"

subsection \<open>Stopping\<close>

text \<open>
  The loop of \<^verbatim>\<open>Stop\<close> over the keys of \<^verbatim>\<open>s.listener\<close>. Go fixes no order for the keys of a
  map, so the order is an argument. A close that fails is handed to \<^verbatim>\<open>log.Fatal\<close>, which
  prints and exits with status 1. Dereferencing a \<^verbatim>\<open>nil\<close> key panics.
\<close>

fun Stop_loop ::
  "env \<Rightarrow> listener_ptr list \<Rightarrow> server_event list \<Rightarrow> unit outcome \<times> server_event list" where
  "Stop_loop e [] tr = (Returned (), tr)"
| "Stop_loop e (None # lns) tr = (Panicked NilPointerDereference, tr)"
| "Stop_loop e (Some l # lns) tr =
     (case listener_Close e (length tr) l of
        Some err \<Rightarrow>
          (Exited 1, tr @ [EvListenerClose l False, SLogFatal ''Error occurred while closing listener''])
      | None \<Rightarrow> Stop_loop e lns (tr @ [EvListenerClose l True]))"

definition Stop ::
  "env \<Rightarrow> listener_ptr list \<Rightarrow> Server \<times> server_event list
     \<Rightarrow> unit outcome \<times> Server \<times> server_event list" where
  "Stop e order st =
     (case st of (s, tr) \<Rightarrow>
        (case SafeClose (Quit s) of
           Inl p \<Rightarrow> (Panicked p, s, tr)
         | Inr q \<Rightarrow>
             (case Stop_loop e order tr of
                (Returned u, tr') \<Rightarrow> (Returned (), s\<lparr>Quit := q\<rparr>, tr' @ [SPrint ''Stoped gracefully''])
              | (out, tr') \<Rightarrow> (out, s\<lparr>Quit := q\<rparr>, tr'))))"

subsection \<open>Routing one connection\<close>


subsection \<open>Goroutines and the wait group\<close>

text \<open>
  The goroutines of the server and the counter of \<^verbatim>\<open>s.listenerGroup\<close>, as a transition
  system. There are four \<^verbatim>\<open>go\<close> statements, and the goroutines are grouped by the statement
  that starts them:
  \<^item> \<^verbatim>\<open>go s.Serve()\<close> in \<^verbatim>\<open>NewServer\<close>, after \<^verbatim>\<open>Add(1)\<close>. \<^verbatim>\<open>Serve\<close> ranges over the listeners
    and ends with its deferred \<^verbatim>\<open>Done()\<close>.
  \<^item> One acceptor for each listener, started by \<^verbatim>\<open>Serve\<close> after \<^verbatim>\<open>Add(1)\<close>. It runs
    \<^verbatim>\<open>acceptConnections\<close> and calls \<^verbatim>\<open>Done()\<close> when that returns.
  \<^item> One handler for each accepted connection, started by the acceptor after \<^verbatim>\<open>Add(1)\<close>.
    It runs \<^verbatim>\<open>handleConnection\<close> and would call \<^verbatim>\<open>Done()\<close> when that returns; but
    \<^verbatim>\<open>handleConnection\<close> is a \<^verbatim>\<open>for\<close> loop without \<^verbatim>\<open>break\<close> or \<^verbatim>\<open>return\<close>, so a handler is
    either about to start a relay (\<open>AtSpawn\<close>) or in \<^verbatim>\<open>s.listenerGroup.Wait()\<close> (\<open>AtWait\<close>).
    Connections are numbered in the order they are accepted, and handler \<open>c\<close> is the
    one of connection \<open>c\<close>.
  \<^item> One relay for each round of the handler's loop, started after \<^verbatim>\<open>Add(1)\<close>. It runs
    \<^verbatim>\<open>proxyConnection\<close> and then calls \<^verbatim>\<open>Done()\<close>.

  Each \<^verbatim>\<open>Add(1)\<close> is followed at once by its \<^verbatim>\<open>go\<close> statement in the same goroutine, so the
  two are one step. \<^verbatim>\<open>Wait()\<close> returns only when the counter is zero. A panic in any
  goroutine ends the process.
\<close>

datatype serve_pc = ServeRange "(listener_ptr \<times> string) list" | ServeEnded

datatype accept_pc = Accepting | AcceptReturned | AcceptEnded

datatype handle_pc = AtSpawn | AtWait

datatype proxy_pc = ProxyRunning | ProxyReturned | ProxyEnded

record runtime =
  wg :: int
  quit_closed :: bool
  crashed :: bool
  serve :: serve_pc
  acceptors :: "(listener_ptr \<times> string \<times> accept_pc) list"
  handlers :: "(string \<times> handle_pc) list"
  proxies :: "(nat \<times> string \<times> proxy_pc) list"


text \<open>
  What can happen next. \<open>AcceptConn i\<close> and \<open>AcceptError i\<close> are the two ways
  \<^verbatim>\<open>AcceptTCP\<close> returns in acceptor \<open>i\<close>; \<open>ProxyReturn j\<close> and \<open>ProxyPanic j\<close> are the two
  ways \<^verbatim>\<open>proxyConnection\<close> ends in relay \<open>j\<close>; \<open>CloseQuit\<close> is the \<^verbatim>\<open>SafeClose\<close> of \<^verbatim>\<open>Stop\<close>.
\<close>

datatype action =
    ServeStep
  | AcceptConn nat
  | AcceptError nat
  | AcceptDone nat
  | HandleStep nat
  | ProxyReturn nat
  | ProxyPanic nat
  | ProxyDone nat
  | CloseQuit

definition step_serve :: "runtime \<Rightarrow> runtime option" where
  "step_serve r =
     (case serve r of
        ServeEnded \<Rightarrow> None
      | ServeRange [] \<Rightarrow> Some (r\<lparr>wg := wg r - 1, serve := ServeEnded\<rparr>)
      | ServeRange (lv # rest) \<Rightarrow>
          Some (r\<lparr>wg := wg r + 1, serve := ServeRange rest,
                  acceptors := acceptors r @ [(fst lv, snd lv, Accepting)]\<rparr>))"

text \<open>
  In \<^verbatim>\<open>acceptConnections\<close>: a connection is accepted and handed to a new handler; or
  \<^verbatim>\<open>AcceptTCP\<close> fails, and the loop returns if the signal is closed and goes on otherwise.
  On a \<^verbatim>\<open>nil\<close> listener \<^verbatim>\<open>(*listener).AcceptTCP()\<close> panics.
\<close>

definition step_accept :: "runtime \<Rightarrow> nat \<Rightarrow> bool \<Rightarrow> runtime option" where
  "step_accept r i ok =
     (if i < length (acceptors r) then
        (case acceptors r ! i of (ln, app, pc) \<Rightarrow>
           if pc \<noteq> Accepting then None
           else if ln = None then Some (r\<lparr>crashed := True\<rparr>)
           else if ok then
             Some (r\<lparr>wg := wg r + 1, handlers := handlers r @ [(app, AtSpawn)]\<rparr>)
           else if quit_closed r then
             Some (r\<lparr>acceptors := (acceptors r)[i := (ln, app, AcceptReturned)]\<rparr>)
           else Some r)
      else None)"

definition step_accept_done :: "runtime \<Rightarrow> nat \<Rightarrow> runtime option" where
  "step_accept_done r i =
     (if i < length (acceptors r) then
        (case acceptors r ! i of (ln, app, pc) \<Rightarrow>
           if pc = AcceptReturned then
             Some (r\<lparr>wg := wg r - 1, acceptors := (acceptors r)[i := (ln, app, AcceptEnded)]\<rparr>)
           else None)
      else None)"

text \<open>
  One step of \<^verbatim>\<open>handleConnection\<close> for connection \<open>c\<close>: at the top of the loop it adds one to
  the counter and starts a relay; in \<^verbatim>\<open>Wait()\<close> it goes back to the top of the loop if the
  counter is zero, and cannot move otherwise.
\<close>

definition step_handle :: "runtime \<Rightarrow> nat \<Rightarrow> runtime option" where
  "step_handle r c =
     (if c < length (handlers r) then
        (case handlers r ! c of (app, pc) \<Rightarrow>
           (case pc of
              AtSpawn \<Rightarrow>
                Some (r\<lparr>wg := wg r + 1, handlers := (handlers r)[c := (app, AtWait)],
                        proxies := proxies r @ [(c, app, ProxyRunning)]\<rparr>)
            | AtWait \<Rightarrow>
                if wg r = 0 then Some (r\<lparr>handlers := (handlers r)[c := (app, AtSpawn)]\<rparr>)
                else None))
      else None)"

definition step_proxy :: "runtime \<Rightarrow> nat \<Rightarrow> proxy_pc \<Rightarrow> bool \<Rightarrow> runtime option" where
  "step_proxy r j at panics =
     (if j < length (proxies r) then
        (case proxies r ! j of (c, app, pc) \<Rightarrow>
           if pc \<noteq> at then None
           else if panics then Some (r\<lparr>crashed := True\<rparr>)
           else (case pc of
                   ProxyRunning \<Rightarrow> Some (r\<lparr>proxies := (proxies r)[j := (c, app, ProxyReturned)]\<rparr>)
                 | ProxyReturned \<Rightarrow>
                     Some (r\<lparr>wg := wg r - 1, proxies := (proxies r)[j := (c, app, ProxyEnded)]\<rparr>)
                 | ProxyEnded \<Rightarrow> None))
      else None)"

definition step :: "runtime \<Rightarrow> action \<Rightarrow> runtime option" where
  "step r a =
     (if crashed r then None
      else (case a of
              ServeStep \<Rightarrow> step_serve r
            | AcceptConn i \<Rightarrow> step_accept r i True
            | AcceptError i \<Rightarrow> step_accept r i False
            | AcceptDone i \<Rightarrow> step_accept_done r i
            | HandleStep c \<Rightarrow> step_handle r c
            | ProxyReturn j \<Rightarrow> step_proxy r j ProxyRunning False
            | ProxyPanic j \<Rightarrow> step_proxy r j ProxyRunning True
            | ProxyDone j \<Rightarrow> step_proxy r j ProxyReturned False
            | CloseQuit \<Rightarrow> Some (r\<lparr>quit_closed := True\<rparr>)))"





section \<open>Examples\<close>

subsection \<open>Example pools\<close>

text \<open>A pool over three fixed targets with the given alive flags and cursor.\<close>

definition example_pool :: "bool list \<Rightarrow> 64 word \<Rightarrow> ServerPool" where
  "example_pool flags c =
     \<lparr>backends = map2 (\<lambda>t a. \<lparr>target = t, Alive = a\<rparr>)
                   [''127.0.0.1:9001'', ''127.0.0.1:9002'', ''127.0.0.1:9003''] flags,
      current = c\<rparr>"

text \<open>A network in which only the second example target accepts connections.\<close>

definition flaky_net :: dialer where
  "flaky_net k addr d = (addr = ''127.0.0.1:9002'')"

subsection \<open>An example environment\<close>

text \<open>
  An environment in which port 5001 is in use and resolving the empty address gives the
  zero address; and the same environment with a listener 0 that fails to close.
\<close>

definition loopback :: "int \<Rightarrow> TCPAddr" where
  "loopback p = \<lparr>IP = [127, 0, 0, 1], Port = p, Zone = ''''\<rparr>"

definition example_env :: env where
  "example_env =
     \<lparr>net_ResolveTCPAddr =
        (\<lambda>a. if a = '''' then Inr \<lparr>IP = [], Port = 0, Zone = ''''\<rparr>
             else if a = ''127.0.0.1:5001'' then Inr (loopback 5001)
             else if a = ''127.0.0.1:5002'' then Inr (loopback 5002)
             else Inl (Err ''unknown address'')),
      net_ListenTCP =
        (\<lambda>k addr. if addr = Some (loopback 5001) then Some (Err ''address already in use'') else None),
      listener_Close = (\<lambda>k l. None),
      syscall_Socket = (\<lambda>k. Inr 3),
      syscall_SetsockoptInt = (\<lambda>k fd. None),
      syscall_Connect = (\<lambda>k fd sa. Some EINPROGRESS),
      net_FileConn = (\<lambda>k fd. Inr 0)\<rparr>"

definition failing_close_env :: env where
  "failing_close_env =
     example_env\<lparr>listener_Close :=
       (\<lambda>k l. if l = 0 then Some (Err ''use of closed network connection'') else None)\<rparr>"

definition example_apps :: "App list" where
  "example_apps = [\<lparr>Name = ''app1'', Ports = [5001, 5002], Targets = [''127.0.0.1:9001'']\<rparr>]"

definition example_server :: "bool list \<Rightarrow> Server" where
  "example_server flags =
     \<lparr>Quit = NewSigChannel,
      listener = [Some 0 \<mapsto> ''app1'', Some 1 \<mapsto> ''app1''],
      serverPool = [''app1'' \<mapsto> example_pool flags 0]\<rparr>"

subsection \<open>An example run\<close>



section \<open>Properties of the server pool\<close>

subsection \<open>Unfolding the selection loop\<close>

lemma GetNextPeer_loop_end:
  "\<not> i < l \<Longrightarrow> GetNextPeer_loop s next l i = (None, s)"
  by (simp add: GetNextPeer_loop.simps)

lemma GetNextPeer_loop_alive:
  "i < l \<Longrightarrow> IsAlive (backends s ! (i mod length (backends s))) \<Longrightarrow>
   GetNextPeer_loop s next l i =
     (Some (i mod length (backends s)),
      if i \<noteq> next then s\<lparr>current := of_nat (i mod length (backends s))\<rparr> else s)"
  by (subst GetNextPeer_loop.simps) (simp add: Let_def)

lemma GetNextPeer_loop_dead:
  "i < l \<Longrightarrow> \<not> IsAlive (backends s ! (i mod length (backends s))) \<Longrightarrow>
   GetNextPeer_loop s next l i = GetNextPeer_loop s next l (i + 1)"
  by (subst GetNextPeer_loop.simps) (simp add: Let_def)

lemmas GetNextPeer_eval =
  GetNextPeer_def NextIndex_def GetNextPeer_loop_end GetNextPeer_loop_alive
  GetNextPeer_loop_dead IsAlive_def Let_def

subsection \<open>The selection loop finds the first alive position\<close>

lemma find_map_comp: "find P (map f xs) = map_option f (find (P \<circ> f) xs)"
  by (induction xs) auto

lemma GetNextPeer_loop_find:
  "i \<le> l \<Longrightarrow>
   GetNextPeer_loop s next l i =
     (case find (\<lambda>j. Alive (backends s ! (j mod length (backends s)))) [i..<l] of
        None \<Rightarrow> (None, s)
      | Some j \<Rightarrow> (Some (j mod length (backends s)),
                   if j \<noteq> next then s\<lparr>current := of_nat (j mod length (backends s))\<rparr> else s))"
proof (induction s "next" l i rule: GetNextPeer_loop.induct)
  case (1 s nxt l i)
  show ?case
  proof (cases "i < l")
    case False
    with "1.prems" have "i = l" by simp
    then show ?thesis by (simp add: GetNextPeer_loop_end)
  next
    case True
    then have upt: "[i..<l] = i # [Suc i..<l]" by (simp add: upt_conv_Cons)
    show ?thesis
    proof (cases "IsAlive (backends s ! (i mod length (backends s)))")
      case True
      with \<open>i < l\<close> show ?thesis
        by (simp add: GetNextPeer_loop_alive upt IsAlive_def)
    next
      case False
      have "GetNextPeer_loop s nxt l i = GetNextPeer_loop s nxt l (i + 1)"
        using \<open>i < l\<close> False by (rule GetNextPeer_loop_dead)
      also have "\<dots> = (case find (\<lambda>j. Alive (backends s ! (j mod length (backends s)))) [i + 1..<l] of
        None \<Rightarrow> (None, s)
      | Some j \<Rightarrow> (Some (j mod length (backends s)),
                   if j \<noteq> nxt then s\<lparr>current := of_nat (j mod length (backends s))\<rparr> else s))"
        using "1.IH" [OF \<open>i < l\<close> refl False] \<open>i < l\<close> by simp
      finally show ?thesis using False by (simp add: upt IsAlive_def)
    qed
  qed
qed

lemma upt_shift: "[next..<sz + next] = map (\<lambda>k. next + k) [0..<sz]"
  using map_add_upt [of "next" sz] by (simp add: add.commute)

lemma scan_find:
  "find (\<lambda>j. Alive (bs ! (j mod sz))) [next..<sz + next] =
   map_option (\<lambda>k. next + k) (find (\<lambda>k. Alive (bs ! ((next + k) mod sz))) [0..<sz])"
  by (subst upt_shift) (simp add: find_map_comp comp_def)

lemma GetNextPeer_result:
  assumes "backends s \<noteq> []"
  shows "fst (GetNextPeer s) = Inr (select_next_spec s)"
proof -
  let ?N = "length (backends s)"
  let ?next = "unat (current s + 1) mod ?N"
  let ?s' = "s\<lparr>current := current s + 1\<rparr>"
  have N: "?N \<noteq> 0" using assms by simp
  have "fst (GetNextPeer s) = Inr (fst (GetNextPeer_loop ?s' ?next (?N + ?next) ?next))"
    using N by (simp add: GetNextPeer_def NextIndex_def Let_def split_beta)
  also have "fst (GetNextPeer_loop ?s' ?next (?N + ?next) ?next) =
     map_option (\<lambda>j. j mod ?N) (find (\<lambda>j. Alive (backends s ! (j mod ?N))) [?next..<?N + ?next])"
    by (subst GetNextPeer_loop_find) (auto split: option.splits)
  also have "\<dots> = select_next_spec s"
    by (simp add: select_next_spec_def scan_order_def Let_def scan_find find_map_comp comp_def
        option.map_comp)
  finally show ?thesis .
qed

lemma GetNextPeer_unfold:
  assumes "backends s \<noteq> []"
  shows "GetNextPeer s =
    (let N = length (backends s);
         nxt = unat (current s + 1) mod N;
         s' = s\<lparr>current := current s + 1\<rparr>
     in case find (\<lambda>k. Alive (backends s ! ((nxt + k) mod N))) [0..<N] of
          None \<Rightarrow> (Inr None, s')
        | Some k \<Rightarrow> (Inr (Some ((nxt + k) mod N)),
                     if k \<noteq> 0 then s'\<lparr>current := of_nat ((nxt + k) mod N)\<rparr> else s'))"
proof -
  let ?N = "length (backends s)"
  let ?nxt = "unat (current s + 1) mod ?N"
  let ?s' = "s\<lparr>current := current s + 1\<rparr>"
  have N: "?N \<noteq> 0" using assms by simp
  have "GetNextPeer s =
     (case GetNextPeer_loop ?s' ?nxt (?N + ?nxt) ?nxt of (r, s'') \<Rightarrow> (Inr r, s''))"
    using N by (simp add: GetNextPeer_def NextIndex_def Let_def)
  also have "GetNextPeer_loop ?s' ?nxt (?N + ?nxt) ?nxt =
     (case find (\<lambda>j. Alive (backends s ! (j mod ?N))) [?nxt..<?N + ?nxt] of
        None \<Rightarrow> (None, ?s')
      | Some j \<Rightarrow> (Some (j mod ?N),
                   if j \<noteq> ?nxt then ?s'\<lparr>current := of_nat (j mod ?N)\<rparr> else ?s'))"
    by (subst GetNextPeer_loop_find) (simp_all split: option.splits)
  finally show ?thesis
    by (simp add: scan_find Let_def split: option.splits)
qed

lemma GetNextPeer_backends:
  "backends (snd (GetNextPeer s)) = backends s"
proof (cases "backends s = []")
  case True
  then show ?thesis by (simp add: GetNextPeer_def NextIndex_def Let_def)
next
  case False
  then show ?thesis
    by (simp add: GetNextPeer_unfold Let_def split: option.splits)
qed

lemma find_upt_first:
  "0 < n \<Longrightarrow> P 0 \<Longrightarrow> find P [0..<n] = Some 0"
  by (simp add: upt_conv_Cons)

lemma GetNextPeer_all_alive:
  assumes "backends s \<noteq> []" and "\<forall>b \<in> set (backends s). Alive b"
  shows "GetNextPeer s =
    (Inr (Some (unat (current s + 1) mod length (backends s))), s\<lparr>current := current s + 1\<rparr>)"
proof -
  let ?N = "length (backends s)"
  let ?nxt = "unat (current s + 1) mod ?N"
  have N: "0 < ?N" using assms(1) by simp
  then have "?nxt < ?N" by simp
  then have "Alive (backends s ! ((?nxt + 0) mod ?N))"
    using assms(2) by simp
  then have "find (\<lambda>k. Alive (backends s ! ((?nxt + k) mod ?N))) [0..<?N] = Some 0"
    using N by (intro find_upt_first) 
  then show ?thesis
    using assms(1) by (simp add: GetNextPeer_unfold Let_def)
qed



subsection \<open>Consecutive selections\<close>

lemma backends_NewServerPool_aux:
  "foldl (\<lambda>bs val. bs @ [NewBackend val]) acc targets = acc @ map NewBackend targets"
  by (induction targets arbitrary: acc) simp_all

lemma backends_NewServerPool: "backends (NewServerPool targets) = map NewBackend targets"
  by (simp add: NewServerPool_def backends_NewServerPool_aux)

lemma GetNextPeer_calls_all_alive:
  assumes "backends s \<noteq> []" and "\<forall>b \<in> set (backends s). Alive b"
  shows "GetNextPeer_calls n s =
    (map (\<lambda>k. Inr (Some (unat (current s + 1 + of_nat k) mod length (backends s)))) [0..<n],
     s\<lparr>current := current s + of_nat n\<rparr>)"
  using assms
proof (induction n arbitrary: s)
  case 0
  then show ?case by simp
next
  case (Suc n)
  let ?s1 = "s\<lparr>current := current s + 1\<rparr>"
  have step: "GetNextPeer s =
     (Inr (Some (unat (current s + 1) mod length (backends s))), ?s1)"
    using Suc.prems by (rule GetNextPeer_all_alive)
  have "backends ?s1 \<noteq> []" and "\<forall>b \<in> set (backends ?s1). Alive b"
    using Suc.prems by simp_all
  from Suc.IH [OF this]
  have rest: "GetNextPeer_calls n ?s1 =
     (map (\<lambda>k. Inr (Some (unat (current s + 1 + 1 + of_nat k) mod length (backends s)))) [0..<n],
      s\<lparr>current := current s + 1 + of_nat n\<rparr>)"
    by simp
  show ?case
    by (simp add: step rest map_upt_Suc add.assoc del: upt_Suc)
qed


lemma unat_cursor_no_wrap:
  fixes c :: "64 word"
  assumes "unat c + 1 + k < 2 ^ 64"
  shows "unat (c + 1 + of_nat k) = unat c + 1 + k"
proof -
  have "unat (c + 1 + of_nat k) = (unat c + 1 + k) mod 2 ^ 64"
    by (simp add: unat_word_ariths unat_of_nat mod_simps)
  then show ?thesis using assms by simp
qed

lemma map_mod_rotate:
  assumes "0 < N"
  shows "map (\<lambda>k. (a + k) mod N) [0..<N] = rotate (a mod N) [0..<N]"
proof (rule nth_equalityI)
  show "length (map (\<lambda>k. (a + k) mod N) [0..<N]) = length (rotate (a mod N) [0..<N])"
    by simp
next
  fix i assume "i < length (map (\<lambda>k. (a + k) mod N) [0..<N])"
  then have i: "i < N" by simp
  have "rotate (a mod N) [0..<N] ! i = [0..<N] ! ((a mod N + i) mod N)"
    using i by (simp add: nth_rotate)
  also have "\<dots> = (a mod N + i) mod N"
    using assms by simp
  also have "\<dots> = (a + i) mod N"
    by (simp add: mod_add_left_eq)
  finally show "map (\<lambda>k. (a + k) mod N) [0..<N] ! i = rotate (a mod N) [0..<N] ! i"
    using i by simp
qed

lemma GetNextPeer_calls_numeral:
  "GetNextPeer_calls (numeral k) s =
     (case GetNextPeer s of
        (Inl p, s') \<Rightarrow> ([Inl p], s')
      | (Inr r, s') \<Rightarrow> (let (rs, s'') = GetNextPeer_calls (pred_numeral k) s' in (Inr r # rs, s'')))"
  by (simp add: numeral_eq_Suc)

section \<open>Round-robin coverage\<close>

text \<open>
  Claim C1, as amended. Take a pool of \<open>N > 0\<close> backends that are all alive and whose 64-bit
  cursor does not wrap around during the next \<open>N + 1\<close> calls. Then \<open>N + 1\<close> consecutive
  calls of \<^verbatim>\<open>GetNextPeer\<close> return the backends in configured order, rotated to start at the
  position after the cursor, followed by the first of them again: the first \<open>N\<close> results
  are pairwise different and cover every position, and call \<open>N + 1\<close> restarts the cycle.
\<close>

theorem round_robin_coverage:
  assumes "backends s \<noteq> []"
    and "\<forall>b \<in> set (backends s). Alive b"
    and "unat (current s) + length (backends s) + 1 < 2 ^ 64"
  shows "fst (GetNextPeer_calls (Suc (length (backends s))) s) =
           map (\<lambda>i. Inr (Some i))
             (rotate ((unat (current s) + 1) mod length (backends s)) [0..<length (backends s)]
              @ [(unat (current s) + 1) mod length (backends s)])
         \<and> distinct (take (length (backends s)) (fst (GetNextPeer_calls (Suc (length (backends s))) s)))
         \<and> set (take (length (backends s)) (fst (GetNextPeer_calls (Suc (length (backends s))) s)))
             = (\<lambda>i. Inr (Some i)) ` {0..<length (backends s)}"
proof -
  let ?N = "length (backends s)"
  let ?a = "unat (current s) + 1"
  have N: "0 < ?N" using assms(1) by simp
  have nowrap: "unat (current s + 1 + of_nat k) = ?a + k" if "k \<le> ?N" for k
    using that assms(3) by (intro unat_cursor_no_wrap) simp
  have "fst (GetNextPeer_calls (Suc ?N) s) =
      map (\<lambda>k. Inr (Some (unat (current s + 1 + of_nat k) mod ?N))) [0..<Suc ?N]"
    by (simp only: GetNextPeer_calls_all_alive [OF assms(1,2)] fst_conv)
  also have "\<dots> = map (\<lambda>k. Inr (Some ((?a + k) mod ?N))) [0..<Suc ?N]"
  proof (rule map_cong [OF refl])
    fix k assume "k \<in> set [0..<Suc ?N]"
    then have "k \<le> ?N" by auto
    then show "Inr (Some (unat (current s + 1 + of_nat k) mod ?N)) = Inr (Some ((?a + k) mod ?N))"
      by (simp only: nowrap)
  qed
  also have "\<dots> = map (\<lambda>i. Inr (Some i)) (map (\<lambda>k. (?a + k) mod ?N) [0..<?N] @ [?a mod ?N])"
  proof -
    have "(?a + ?N) mod ?N = ?a mod ?N" by (rule mod_add_self2)
    then show ?thesis by simp
  qed
  also have "map (\<lambda>k. (?a + k) mod ?N) [0..<?N] = rotate (?a mod ?N) [0..<?N]"
    using N by (rule map_mod_rotate)
  finally have eq: "fst (GetNextPeer_calls (Suc ?N) s) =
      map (\<lambda>i. Inr (Some i)) (rotate (?a mod ?N) [0..<?N] @ [?a mod ?N])" .
  have tk: "take ?N (fst (GetNextPeer_calls (Suc ?N) s)) =
      map (\<lambda>i. Inr (Some i)) (rotate (?a mod ?N) [0..<?N])"
    by (subst eq) simp
  have d: "distinct (map (\<lambda>i. Inr (Some i) :: panic + nat option) (rotate (?a mod ?N) [0..<?N]))"
    by (simp add: distinct_map inj_on_def)
  have st: "set (map (\<lambda>i. Inr (Some i) :: panic + nat option) (rotate (?a mod ?N) [0..<?N]))
      = (\<lambda>i. Inr (Some i)) ` {0..<?N}"
    by simp
  show ?thesis unfolding tk using eq d st by blast
qed

text \<open>
  The theorem at a fresh pool of three backends: the calls return positions 1, 2, 0 and
  then 1 again.
\<close>

theorem round_robin_coverage_witness:
  "backends (example_pool [True, True, True] 0) \<noteq> [] \<and>
   map Alive (backends (example_pool [True, True, True] 0)) = [True, True, True] \<and>
   unat (current (example_pool [True, True, True] 0)) + length (backends (example_pool [True, True, True] 0)) + 1 < 2 ^ 64 \<and>
   fst (GetNextPeer_calls (Suc (length (backends (example_pool [True, True, True] 0)))) (example_pool [True, True, True] 0))
     = [Inr (Some 1), Inr (Some 2), Inr (Some 0), Inr (Some 1)]"
proof -
  have h1: "backends (example_pool [True, True, True] 0) \<noteq> []" by (simp add: example_pool_def)
  have h2: "\<forall>b \<in> set (backends (example_pool [True, True, True] 0)). Alive b" by (simp add: example_pool_def)
  have h3: "unat (current (example_pool [True, True, True] 0)) + length (backends (example_pool [True, True, True] 0)) + 1 < 2 ^ 64"
    by (simp add: example_pool_def)
  have rot: "rotate ((unat (current (example_pool [True, True, True] 0)) + 1) mod length (backends (example_pool [True, True, True] 0)))
               [0..<length (backends (example_pool [True, True, True] 0))] = [1, 2, 0]"
    by (simp add: example_pool_def upt_rec)
  from round_robin_coverage [OF h1 h2 h3]
  have "fst (GetNextPeer_calls (Suc (length (backends (example_pool [True, True, True] 0)))) (example_pool [True, True, True] 0)) =
           map (\<lambda>i. Inr (Some i))
             (rotate ((unat (current (example_pool [True, True, True] 0)) + 1) mod length (backends (example_pool [True, True, True] 0)))
                [0..<length (backends (example_pool [True, True, True] 0))]
              @ [(unat (current (example_pool [True, True, True] 0)) + 1) mod length (backends (example_pool [True, True, True] 0))])"
    by (rule conjunct1)
  also have "\<dots> = [Inr (Some 1), Inr (Some 2), Inr (Some 0), Inr (Some 1)]"
    unfolding rot by (simp add: example_pool_def)
  finally show ?thesis using h1 h3 by (simp add: example_pool_def)
qed

text \<open>
  Without the condition on the cursor the claim fails. \<^verbatim>\<open>atomic.AddUint64\<close> wraps at
  \<open>2^64\<close>, and \<open>2^64\<close> is not a multiple of three: with the cursor at \<open>2^64 - 2\<close>, three
  calls on three alive backends return position 0 twice and never position 2.
\<close>

theorem round_robin_wraparound_counterexample:
  "map Alive (backends (example_pool [True, True, True] 18446744073709551614))
     = [True, True, True] \<and>
   fst (GetNextPeer_calls 3 (example_pool [True, True, True] 18446744073709551614))
     = [Inr (Some 0), Inr (Some 0), Inr (Some 1)] \<and>
   \<not> distinct (fst (GetNextPeer_calls 3 (example_pool [True, True, True] 18446744073709551614)))"
  by (simp add: example_pool_def GetNextPeer_calls_numeral GetNextPeer_eval)



section \<open>Selection returns the first alive backend\<close>






section \<open>Selection on an empty pool\<close>

text \<open>
  Claim C10. An empty target list gives a pool without backends. On such a pool
  \<^verbatim>\<open>NextIndex\<close>, and with it \<^verbatim>\<open>GetNextPeer\<close>, panics with an integer division by zero; on every
  pool with at least one backend both return a value.
\<close>

theorem empty_pool_selection_panics:
  "backends (NewServerPool []) = []
   \<and> (backends s = [] \<longrightarrow>
        fst (NextIndex s) = Inl IntegerDivideByZero \<and> fst (GetNextPeer s) = Inl IntegerDivideByZero)
   \<and> (backends s \<noteq> [] \<longrightarrow>
        (\<exists>i. fst (NextIndex s) = Inr i \<and> i < length (backends s)) \<and>
        (\<exists>r. fst (GetNextPeer s) = Inr r))"
proof -
  have "fst (GetNextPeer s) = Inr (select_next_spec s)" if "backends s \<noteq> []"
    using that by (rule GetNextPeer_result)
  then show ?thesis
    by (auto simp: backends_NewServerPool NextIndex_def GetNextPeer_def Let_def)
qed

text \<open>The theorem at the pool of no targets and at a pool of one target.\<close>

theorem empty_pool_selection_panics_witness:
  "backends (NewServerPool []) = [] \<and>
   fst (NextIndex (NewServerPool [])) = Inl IntegerDivideByZero \<and>
   fst (GetNextPeer (NewServerPool [])) = Inl IntegerDivideByZero \<and>
   backends (NewServerPool [''127.0.0.1:9001'']) \<noteq> [] \<and>
   (\<exists>r. fst (GetNextPeer (NewServerPool [''127.0.0.1:9001''])) = Inr r)"
proof -
  have e: "backends (NewServerPool []) = []" by (simp add: backends_NewServerPool)
  have n: "backends (NewServerPool [''127.0.0.1:9001'']) \<noteq> []" by (simp add: backends_NewServerPool)
  from empty_pool_selection_panics [of "NewServerPool []"] e
  have p: "fst (NextIndex (NewServerPool [])) = Inl IntegerDivideByZero \<and>
           fst (GetNextPeer (NewServerPool [])) = Inl IntegerDivideByZero"
    by blast
  from empty_pool_selection_panics [of "NewServerPool [''127.0.0.1:9001'']"] n
  have t: "\<exists>r. fst (GetNextPeer (NewServerPool [''127.0.0.1:9001''])) = Inr r"
    by blast
  from e n p t show ?thesis by blast
qed

section \<open>Health checker\<close>

lemma dials_append: "dials (xs @ ys) = dials xs @ dials ys"
  by (induction xs rule: dials.induct) simp_all

lemma isBackendAlive_dials:
  "isBackendAlive net tr addr = (ok, tr') \<Longrightarrow> dials tr' = dials tr @ [(addr, 2 * Second, ok)]"
  by (auto simp: isBackendAlive_def Let_def dials_append split: if_splits)

lemma healthCheckItr_loop_effect:
  "healthCheckItr_loop net bs tr = (bs', tr') \<Longrightarrow>
     map target bs' = map target bs \<and>
     dials tr' = dials tr @ map (\<lambda>b. (target b, 2 * Second, Alive b)) bs'"
proof (induction bs arbitrary: tr bs' tr')
  case Nil
  then show ?case by simp
next
  case (Cons b bs)
  obtain alive tr1 where probe: "isBackendAlive net tr (target b) = (alive, tr1)"
    by (cases "isBackendAlive net tr (target b)")
  let ?status = "if \<not> alive then ''down'' else ''up''"
  let ?tr2 = "tr1 @ [Log (target b @ '' ['' @ ?status @ '']'')]"
  obtain bs2 tr3 where rest: "healthCheckItr_loop net bs ?tr2 = (bs2, tr3)"
    by (cases "healthCheckItr_loop net bs ?tr2")
  from Cons.prems probe rest
  have res: "bs' = SetAlive b alive # bs2" "tr' = tr3"
    by (simp_all add: Let_def)
  from Cons.IH [OF rest]
  have ih: "map target bs2 = map target bs"
    "dials tr3 = dials ?tr2 @ map (\<lambda>b. (target b, 2 * Second, Alive b)) bs2"
    by simp_all
  have "dials ?tr2 = dials tr @ [(target b, 2 * Second, alive)]"
    using isBackendAlive_dials [OF probe] by (simp add: dials_append)
  with ih res show ?case by (simp add: SetAlive_def)
qed

lemma healthCheckItr_effect:
  "healthCheckItr net (s, tr) = (s', tr') \<Longrightarrow>
     map target (backends s') = map target (backends s) \<and> current s' = current s \<and>
     dials tr' = dials tr @ map (\<lambda>b. (target b, 2 * Second, Alive b)) (backends s')"
proof -
  assume h: "healthCheckItr net (s, tr) = (s', tr')"
  obtain bs2 tr2 where l: "healthCheckItr_loop net (backends s) tr = (bs2, tr2)"
    by (cases "healthCheckItr_loop net (backends s) tr")
  from h l have "s' = s\<lparr>backends := bs2\<rparr>" "tr' = tr2"
    by (simp_all add: healthCheckItr_def)
  with healthCheckItr_loop_effect [OF l] show ?thesis by simp
qed

lemma HealthCheck_loop_never_returns: "fst (HealthCheck_loop net ticks st) = None"
  by (induction ticks arbitrary: st) simp_all

lemma HealthCheck_loop_Suc:
  "snd (HealthCheck_loop net (Suc ticks) st) = healthCheckTick net (snd (HealthCheck_loop net ticks st))"
  by (induction ticks arbitrary: st) simp_all

lemma isBackendAlive_oracle:
  "isBackendAlive net tr addr = (ok, tr') \<Longrightarrow>
     ok = net (length tr) addr (2 * Second) \<and> length tr' = length tr + 2 \<and>
     dials tr' = dials tr @ [(addr, 2 * Second, ok)]"
  by (auto simp: isBackendAlive_def Let_def dials_append split: if_splits)

lemma healthCheckItr_loop_oracle:
  "healthCheckItr_loop net bs tr = (bs', tr') \<Longrightarrow>
     bs' = map (\<lambda>i. (bs ! i)\<lparr>Alive := net (length tr + 3 * i) (target (bs ! i)) (2 * Second)\<rparr>)
             [0..<length bs] \<and>
     length tr' = length tr + 3 * length bs \<and>
     dials tr' = dials tr @
       map (\<lambda>i. (target (bs ! i), 2 * Second, net (length tr + 3 * i) (target (bs ! i)) (2 * Second)))
         [0..<length bs]"
proof (induction bs arbitrary: tr bs' tr')
  case Nil
  then show ?case by simp
next
  case (Cons b bs)
  obtain alive tr1 where probe: "isBackendAlive net tr (target b) = (alive, tr1)"
    by (cases "isBackendAlive net tr (target b)")
  from isBackendAlive_oracle [OF probe]
  have ok: "alive = net (length tr) (target b) (2 * Second)"
    and l1: "length tr1 = length tr + 2"
    and d1: "dials tr1 = dials tr @ [(target b, 2 * Second, alive)]"
    by simp_all
  let ?status = "if \<not> alive then ''down'' else ''up''"
  let ?tr2 = "tr1 @ [Log (target b @ '' ['' @ ?status @ '']'')]"
  obtain bs2 tr3 where rest: "healthCheckItr_loop net bs ?tr2 = (bs2, tr3)"
    by (cases "healthCheckItr_loop net bs ?tr2")
  from Cons.prems probe rest
  have res: "bs' = SetAlive b alive # bs2" "tr' = tr3"
    by (simp_all add: Let_def)
  have l2: "length ?tr2 = length tr + 3" using l1 by simp
  have d2: "dials ?tr2 = dials tr @ [(target b, 2 * Second, alive)]"
    using d1 by (simp add: dials_append)
  from Cons.IH [OF rest]
  have ih1: "bs2 = map (\<lambda>i. (bs ! i)\<lparr>Alive := net (length ?tr2 + 3 * i) (target (bs ! i)) (2 * Second)\<rparr>)
             [0..<length bs]"
    and ih2: "length tr3 = length ?tr2 + 3 * length bs"
    and ih3: "dials tr3 = dials ?tr2 @
       map (\<lambda>i. (target (bs ! i), 2 * Second, net (length ?tr2 + 3 * i) (target (bs ! i)) (2 * Second)))
         [0..<length bs]"
    by blast+
  have shift: "length ?tr2 + 3 * i = length tr + 3 * Suc i" for i
    using l2 by simp
  have a: "bs' = map (\<lambda>i. ((b # bs) ! i)\<lparr>Alive := net (length tr + 3 * i) (target ((b # bs) ! i)) (2 * Second)\<rparr>)
             [0..<length (b # bs)]"
    unfolding res ih1 shift
    by (simp add: map_upt_Suc SetAlive_def ok del: upt_Suc)
  have b: "length tr' = length tr + 3 * length (b # bs)"
    using ih2 l2 res by simp
  have c: "dials tr' = dials tr @
       map (\<lambda>i. (target ((b # bs) ! i), 2 * Second,
                  net (length tr + 3 * i) (target ((b # bs) ! i)) (2 * Second)))
         [0..<length (b # bs)]"
    unfolding res ih3 d2 shift
    by (simp add: map_upt_Suc ok del: upt_Suc)
  from a b c show ?case by blast
qed

lemma healthCheckTick_oracle:
  assumes "healthCheckTick net (s, tr) = (s', tr')"
  shows "s' = s\<lparr>backends :=
              map (\<lambda>i. (backends s ! i)
                     \<lparr>Alive := net (length tr + 2 + 3 * i) (target (backends s ! i)) (2 * Second)\<rparr>)
                [0..<length (backends s)]\<rparr>"
    and "length tr' = length tr + 3 * length (backends s) + 3"
    and "dials tr' = dials tr @
           map (\<lambda>i. (target (backends s ! i), 2 * Second,
                      net (length tr + 2 + 3 * i) (target (backends s ! i)) (2 * Second)))
             [0..<length (backends s)]"
proof -
  let ?tr0 = "tr @ [TickerRecv, Log ''Starting health check...'']"
  obtain bs2 tr2 where l: "healthCheckItr_loop net (backends s) ?tr0 = (bs2, tr2)"
    by (cases "healthCheckItr_loop net (backends s) ?tr0")
  from assms l have r: "s' = s\<lparr>backends := bs2\<rparr>" "tr' = tr2 @ [Log ''Health check completed'']"
    by (simp_all add: healthCheckTick_def healthCheckItr_def)
  have l0: "length ?tr0 + 3 * i = length tr + 2 + 3 * i" for i by simp
  from healthCheckItr_loop_oracle [OF l]
  have a: "bs2 = map (\<lambda>i. (backends s ! i)
                     \<lparr>Alive := net (length tr + 2 + 3 * i) (target (backends s ! i)) (2 * Second)\<rparr>)
                [0..<length (backends s)]"
    and b: "length tr2 = length ?tr0 + 3 * length (backends s)"
    and c: "dials tr2 = dials ?tr0 @
           map (\<lambda>i. (target (backends s ! i), 2 * Second,
                      net (length tr + 2 + 3 * i) (target (backends s ! i)) (2 * Second)))
             [0..<length (backends s)]"
    unfolding l0 by blast+
  show "s' = s\<lparr>backends :=
              map (\<lambda>i. (backends s ! i)
                     \<lparr>Alive := net (length tr + 2 + 3 * i) (target (backends s ! i)) (2 * Second)\<rparr>)
                [0..<length (backends s)]\<rparr>"
    using r a by simp
  show "length tr' = length tr + 3 * length (backends s) + 3"
    using r b by simp
  show "dials tr' = dials tr @
           map (\<lambda>i. (target (backends s ! i), 2 * Second,
                      net (length tr + 2 + 3 * i) (target (backends s ! i)) (2 * Second)))
             [0..<length (backends s)]"
    using r c by (simp add: dials_append)
qed

lemma healthCheckTick_steady:
  assumes "healthCheckTick net (s, tr) = (s', tr')" and "\<And>k. net k = reach"
  shows "backends s' = map (\<lambda>b. b\<lparr>Alive := reach (target b) (2 * Second)\<rparr>) (backends s)"
proof -
  have "backends s' = map (\<lambda>i. (backends s ! i)
                     \<lparr>Alive := reach (target (backends s ! i)) (2 * Second)\<rparr>)
                [0..<length (backends s)]"
    using healthCheckTick_oracle(1) [OF assms(1)] by (simp add: assms(2))
  also have "\<dots> = map (\<lambda>b. b\<lparr>Alive := reach (target b) (2 * Second)\<rparr>) (backends s)"
    by (rule nth_equalityI) simp_all
  finally show ?thesis .
qed

lemma HealthCheck_loop_dials:
  "length (backends (fst (snd (HealthCheck_loop net ticks (s, tr))))) = length (backends s) \<and>
   length (dials (snd (snd (HealthCheck_loop net ticks (s, tr)))))
     = length (dials tr) + ticks * length (backends s)"
proof (induction ticks arbitrary: s tr)
  case 0
  then show ?case by simp
next
  case (Suc ticks)
  obtain s1 tr1 where t: "healthCheckTick net (s, tr) = (s1, tr1)"
    by (cases "healthCheckTick net (s, tr)")
  from healthCheckTick_oracle(1,3) [OF t]
  have l: "length (backends s1) = length (backends s)"
    and d: "length (dials tr1) = length (dials tr) + length (backends s)"
    by simp_all
  from Suc.IH [of s1 tr1] l d show ?case by (simp add: t)
qed

text \<open>
  Claim C8. \<^verbatim>\<open>HealthCheck\<close> creates a ticker of twenty seconds and never returns, whatever
  the network answers; after any number of ticks it has dialled every backend once for
  each tick. A tick dials the backends in pool order, each once and with a timeout of two
  seconds, and sets the alive flag of each backend to the answer the network gave to its
  dial (the network is asked when two events of the tick and three events for each
  earlier backend have passed); nothing else of the pool changes. In a network whose
  answers do not change during the tick, every backend ends up alive exactly if its
  target can be reached.
\<close>

theorem health_check_probes_every_backend:
  "fst (HealthCheck net ticks (s, tr)) = None
   \<and> HealthCheck net 0 (s, tr) = (None, s, tr @ [NewTicker (20 * Second)])
   \<and> snd (HealthCheck net (Suc ticks) (s, tr)) = healthCheckTick net (snd (HealthCheck net ticks (s, tr)))
   \<and> length (dials (snd (snd (HealthCheck net ticks (s, tr)))))
        = length (dials tr) + ticks * length (backends s)
   \<and> (case healthCheckTick net (s, tr) of (s', tr') \<Rightarrow>
         s' = s\<lparr>backends :=
                map (\<lambda>i. (backends s ! i)
                       \<lparr>Alive := net (length tr + 2 + 3 * i) (target (backends s ! i)) (2 * Second)\<rparr>)
                  [0..<length (backends s)]\<rparr> \<and>
         dials tr' = dials tr @
           map (\<lambda>i. (target (backends s ! i), 2 * Second,
                      net (length tr + 2 + 3 * i) (target (backends s ! i)) (2 * Second)))
             [0..<length (backends s)] \<and>
         ((\<forall>k. net k = reach) \<longrightarrow>
            backends s' = map (\<lambda>b. b\<lparr>Alive := reach (target b) (2 * Second)\<rparr>) (backends s)))"
proof -
  obtain s' tr' where t: "healthCheckTick net (s, tr) = (s', tr')"
    by (cases "healthCheckTick net (s, tr)")
  have tick: "case healthCheckTick net (s, tr) of (s', tr') \<Rightarrow>
         s' = s\<lparr>backends :=
                map (\<lambda>i. (backends s ! i)
                       \<lparr>Alive := net (length tr + 2 + 3 * i) (target (backends s ! i)) (2 * Second)\<rparr>)
                  [0..<length (backends s)]\<rparr> \<and>
         dials tr' = dials tr @
           map (\<lambda>i. (target (backends s ! i), 2 * Second,
                      net (length tr + 2 + 3 * i) (target (backends s ! i)) (2 * Second)))
             [0..<length (backends s)] \<and>
         ((\<forall>k. net k = reach) \<longrightarrow>
            backends s' = map (\<lambda>b. b\<lparr>Alive := reach (target b) (2 * Second)\<rparr>) (backends s))"
    using healthCheckTick_oracle(1,3) [OF t] healthCheckTick_steady [OF t, of reach]
    by (simp add: t)
  have cnt: "length (dials (snd (snd (HealthCheck net ticks (s, tr)))))
        = length (dials tr) + ticks * length (backends s)"
    using HealthCheck_loop_dials [of net ticks s "tr @ [NewTicker (Second * 20)]"]
    by (simp add: HealthCheck_def dials_append)
  have rest: "fst (HealthCheck net ticks (s, tr)) = None"
    "HealthCheck net 0 (s, tr) = (None, s, tr @ [NewTicker (20 * Second)])"
    "snd (HealthCheck net (Suc ticks) (s, tr)) = healthCheckTick net (snd (HealthCheck net ticks (s, tr)))"
    by (simp_all add: HealthCheck_def HealthCheck_loop_never_returns HealthCheck_loop_Suc
        mult.commute del: HealthCheck_loop.simps(2))
  from rest cnt tick show ?thesis by blast
qed

text \<open>
  The theorem at a pool of three backends in a network where only the second target
  answers: the first and the third backend are marked down, and three ticks make nine
  dials.
\<close>

theorem health_check_probes_every_backend_witness:
  "(\<forall>k. flaky_net k = flaky_net 0) \<and>
   fst (HealthCheck flaky_net 3 (example_pool [True, True, True] 0, [])) = None \<and>
   length (dials (snd (snd (HealthCheck flaky_net 3 (example_pool [True, True, True] 0, [])))))
     = 9 \<and>
   backends (fst (healthCheckTick flaky_net (example_pool [True, True, True] 0, [])))
     = [\<lparr>target = ''127.0.0.1:9001'', Alive = False\<rparr>, \<lparr>target = ''127.0.0.1:9002'', Alive = True\<rparr>,
        \<lparr>target = ''127.0.0.1:9003'', Alive = False\<rparr>]"
proof -
  let ?st = "(example_pool [True, True, True] 0, [])"
  have steady: "\<forall>k. flaky_net k = flaky_net 0"
    by (simp add: flaky_net_def fun_eq_iff)
  note inst = health_check_probes_every_backend
    [of flaky_net 3 "example_pool [True, True, True] 0" "[]" "flaky_net 0"]
  from inst have n: "fst (HealthCheck flaky_net 3 ?st) = None"
    by blast
  from inst have "length (dials (snd (snd (HealthCheck flaky_net 3 ?st))))
        = length (dials []) + 3 * length (backends (example_pool [True, True, True] 0))"
    by blast
  then have c: "length (dials (snd (snd (HealthCheck flaky_net 3 ?st)))) = 9"
    by (simp add: example_pool_def)
  obtain s1 tr1 where t: "healthCheckTick flaky_net ?st = (s1, tr1)"
    by (cases "healthCheckTick flaky_net ?st")
  from inst [unfolded t prod.case] steady
  have "backends s1 =
      map (\<lambda>b. b\<lparr>Alive := flaky_net 0 (target b) (2 * Second)\<rparr>)
        (backends (example_pool [True, True, True] 0))"
    by blast
  then have "backends s1
     = [\<lparr>target = ''127.0.0.1:9001'', Alive = False\<rparr>, \<lparr>target = ''127.0.0.1:9002'', Alive = True\<rparr>,
        \<lparr>target = ''127.0.0.1:9003'', Alive = False\<rparr>]"
    by (simp add: example_pool_def flaky_net_def)
  then have b: "backends (fst (healthCheckTick flaky_net ?st))
     = [\<lparr>target = ''127.0.0.1:9001'', Alive = False\<rparr>, \<lparr>target = ''127.0.0.1:9002'', Alive = True\<rparr>,
        \<lparr>target = ''127.0.0.1:9003'', Alive = False\<rparr>]"
    by (simp add: t)
  from steady n c b show ?thesis by blast
qed

lemma GetNextPeer_cursor:
  "current (snd (GetNextPeer s)) = current s + 1 \<or>
   (\<exists>idx. fst (GetNextPeer s) = Inr (Some idx) \<and> current (snd (GetNextPeer s)) = of_nat idx)"
proof (cases "backends s = []")
  case True
  then show ?thesis by (simp add: GetNextPeer_def NextIndex_def Let_def)
next
  case False
  then show ?thesis
    by (simp add: GetNextPeer_unfold Let_def split: option.splits)
qed

lemma GetNextPeer_cursor_position:
  assumes "length (backends s) < 2 ^ 64" and "fst (GetNextPeer s) = Inr (Some idx)"
  shows "unat (current (snd (GetNextPeer s))) mod length (backends s) = idx"
proof -
  have ne: "backends s \<noteq> []"
    using assms(2) by (auto simp: GetNextPeer_def NextIndex_def Let_def)
  let ?N = "length (backends s)"
  let ?nxt = "unat (current s + 1) mod ?N"
  obtain k where k: "find (\<lambda>k. Alive (backends s ! ((?nxt + k) mod ?N))) [0..<?N] = Some k"
    and idx: "idx = (?nxt + k) mod ?N"
    and cur: "current (snd (GetNextPeer s)) =
                (if k \<noteq> 0 then of_nat ((?nxt + k) mod ?N) else current s + 1)"
    using assms(2) by (auto simp: GetNextPeer_unfold [OF ne] Let_def split: option.splits)
  have N: "0 < ?N" using ne by simp
  show ?thesis
  proof (cases "k = 0")
    case True
    with cur idx N show ?thesis by simp
  next
    case False
    have "idx < ?N" using idx N by simp
    then have "idx < 2 ^ 64" using assms(1) by simp
    then have "unat (of_nat idx :: 64 word) = idx"
      by (simp add: unat_of_nat)
    with False cur idx \<open>idx < ?N\<close> show ?thesis by simp
  qed
qed

section \<open>What the operations preserve\<close>

text \<open>
  Claim C7, as amended. The targets of a new pool are the configured targets in their
  order, and no operation changes them: \<^verbatim>\<open>NextIndex\<close> and \<^verbatim>\<open>GetNextPeer\<close> leave the backends
  as they are, a health check changes alive flags only. \<^verbatim>\<open>NextIndex\<close> adds one to the
  cursor. \<^verbatim>\<open>GetNextPeer\<close> either adds one to the cursor or stores the position of the backend
  it returns; in both cases, after a backend was returned, the cursor modulo the pool size
  is the position of that backend.
\<close>

theorem pool_invariant:
  "map target (backends (NewServerPool targets)) = targets
   \<and> backends (snd (NextIndex s)) = backends s
   \<and> backends (snd (GetNextPeer s)) = backends s
   \<and> map target (backends (fst (healthCheckItr net (s, tr)))) = map target (backends s)
   \<and> current (fst (healthCheckItr net (s, tr))) = current s
   \<and> current (snd (NextIndex s)) = current s + 1
   \<and> (current (snd (GetNextPeer s)) = current s + 1 \<or>
        (\<exists>idx. fst (GetNextPeer s) = Inr (Some idx) \<and> current (snd (GetNextPeer s)) = of_nat idx))
   \<and> (length (backends s) < 2 ^ 64 \<longrightarrow>
        (\<forall>idx. fst (GetNextPeer s) = Inr (Some idx) \<longrightarrow>
           unat (current (snd (GetNextPeer s))) mod length (backends s) = idx))"
proof -
  have a: "map target (backends (NewServerPool targets)) = targets"
    by (simp add: backends_NewServerPool NewBackend_def comp_def)
  have b: "backends (snd (NextIndex s)) = backends s" "current (snd (NextIndex s)) = current s + 1"
    by (simp_all add: NextIndex_def Let_def)
  obtain s' tr' where h: "healthCheckItr net (s, tr) = (s', tr')"
    by (cases "healthCheckItr net (s, tr)")
  from healthCheckItr_effect [OF h] h
  have c: "map target (backends (fst (healthCheckItr net (s, tr)))) = map target (backends s)"
    "current (fst (healthCheckItr net (s, tr))) = current s"
    by simp_all
  from a b c GetNextPeer_backends [of s] GetNextPeer_cursor [of s] GetNextPeer_cursor_position [of s]
  show ?thesis by blast
qed

text \<open>The theorem at a pool whose first backend is the only alive one.\<close>

theorem pool_invariant_witness:
  "length (backends (example_pool [True, False, False] 9)) < 2 ^ 64 \<and>
   fst (GetNextPeer (example_pool [True, False, False] 9)) = Inr (Some 0) \<and>
   unat (current (snd (GetNextPeer (example_pool [True, False, False] 9))))
     mod length (backends (example_pool [True, False, False] 9)) = 0"
proof -
  have l: "length (backends (example_pool [True, False, False] 9)) < 2 ^ 64"
    by (simp add: example_pool_def)
  have r: "fst (GetNextPeer (example_pool [True, False, False] 9)) = Inr (Some 0)"
    by (simp add: example_pool_def GetNextPeer_eval)
  from pool_invariant [of _ "example_pool [True, False, False] 9"] l r
  have "unat (current (snd (GetNextPeer (example_pool [True, False, False] 9))))
     mod length (backends (example_pool [True, False, False] 9)) = 0"
    by blast
  with l r show ?thesis by blast
qed

text \<open>
  The cursor does move backwards: with the cursor at 9 and only the first of three
  backends alive, \<^verbatim>\<open>GetNextPeer\<close> skips two dead backends and stores position 0.
\<close>

theorem cursor_moves_backwards_counterexample:
  "current (example_pool [True, False, False] 9) = 9 \<and>
   GetNextPeer (example_pool [True, False, False] 9)
     = (Inr (Some 0), example_pool [True, False, False] 0) \<and>
   current (snd (GetNextPeer (example_pool [True, False, False] 9)))
     < current (example_pool [True, False, False] 9)"
  by (simp add: example_pool_def GetNextPeer_eval)

section \<open>The shutdown signal closes once\<close>

lemma SafeClose_new: "SafeClose NewSigChannel = Inr closed_state"
  by (simp add: SafeClose_def close_chan_def NewSigChannel_def closed_state_def)

lemma SafeClose_closed: "SafeClose closed_state = Inr closed_state"
  by (simp add: SafeClose_def closed_state_def)

lemma SafeClose_calls_closed: "SafeClose_calls n closed_state = replicate n (Inr closed_state)"
  by (induction n) (simp_all add: SafeClose_closed)

lemma SafeClose_calls_new: "SafeClose_calls n NewSigChannel = replicate n (Inr closed_state)"
  by (cases n) (simp_all add: SafeClose_new SafeClose_calls_closed)

lemma transitions_closed: "transitions True (replicate n True) = 0"
  by (induction n) simp_all

lemma transitions_open: "0 < n \<Longrightarrow> transitions False (replicate n True) = 1"
  by (cases n) (simp_all add: transitions_closed)

text \<open>
  Claim C6. However often \<^verbatim>\<open>SafeClose\<close> is called on a new signal, no call panics and
  every call leaves the channel closed; when it is called at least once, the channel goes
  from open to closed exactly once, in the first call.
\<close>

theorem SafeClose_closes_exactly_once:
  "SafeClose_calls n NewSigChannel = replicate n (Inr \<lparr>C_closed = True, once_done = True\<rparr>)
   \<and> (0 < n \<longrightarrow>
        transitions (C_closed NewSigChannel) (map closed_after (SafeClose_calls n NewSigChannel)) = 1)"
proof -
  have "map closed_after (replicate n (Inr closed_state)) = replicate n True"
    by (simp add: closed_after_def closed_state_def)
  then show ?thesis
    using SafeClose_calls_new [of n] transitions_open [of n]
    by (simp add: closed_state_def NewSigChannel_def)
qed

text \<open>The theorem at three calls.\<close>

theorem SafeClose_closes_exactly_once_witness:
  "(0::nat) < 3 \<and>
   SafeClose_calls 3 NewSigChannel =
     [Inr \<lparr>C_closed = True, once_done = True\<rparr>, Inr \<lparr>C_closed = True, once_done = True\<rparr>,
      Inr \<lparr>C_closed = True, once_done = True\<rparr>] \<and>
   transitions (C_closed NewSigChannel) (map closed_after (SafeClose_calls 3 NewSigChannel)) = 1"
proof -
  have p: "(0::nat) < 3" by simp
  have r: "replicate 3 (Inr \<lparr>C_closed = True, once_done = True\<rparr> :: panic + SigChannel) =
     [Inr \<lparr>C_closed = True, once_done = True\<rparr>, Inr \<lparr>C_closed = True, once_done = True\<rparr>,
      Inr \<lparr>C_closed = True, once_done = True\<rparr>]"
    by (simp add: numeral_3_eq_3)
  from SafeClose_closes_exactly_once [of 3] p
  have a: "SafeClose_calls 3 NewSigChannel = replicate 3 (Inr \<lparr>C_closed = True, once_done = True\<rparr>)"
    and b: "transitions (C_closed NewSigChannel) (map closed_after (SafeClose_calls 3 NewSigChannel)) = 1"
    by blast+
  from a have a': "SafeClose_calls 3 NewSigChannel =
     [Inr \<lparr>C_closed = True, once_done = True\<rparr>, Inr \<lparr>C_closed = True, once_done = True\<rparr>,
      Inr \<lparr>C_closed = True, once_done = True\<rparr>]"
    by (simp only: r)
  from p a' b show ?thesis by blast
qed

section \<open>Stopping the server\<close>

lemma Stop_loop_succeed:
  assumes "None \<notin> set order"
    and "\<forall>i<length order. listener_Close e (length tr + i) (the (order ! i)) = None"
  shows "Stop_loop e order tr = (Returned (), tr @ map (\<lambda>ln. EvListenerClose (the ln) True) order)"
  using assms
proof (induction order arbitrary: tr)
  case Nil
  then show ?case by simp
next
  case (Cons ln lns)
  then obtain l where ln: "ln = Some l" by (cases ln) auto
  from Cons.prems(2) have first: "listener_Close e (length tr) l = None"
    by (auto simp: ln)
  have rest: "\<forall>i<length lns.
      listener_Close e (length (tr @ [EvListenerClose l True]) + i) (the (lns ! i)) = None"
  proof (intro allI impI)
    fix i assume "i < length lns"
    then have "Suc i < length (ln # lns)" by simp
    with Cons.prems(2) have "listener_Close e (length tr + Suc i) (the ((ln # lns) ! Suc i)) = None"
      by blast
    then show "listener_Close e (length (tr @ [EvListenerClose l True]) + i) (the (lns ! i)) = None"
      by simp
  qed
  from Cons.prems(1) have "None \<notin> set lns" by simp
  from Cons.IH [OF this rest] first show ?case by (simp add: ln)
qed

lemma Stop_loop_fail:
  assumes "None \<notin> set order" and "k < length order"
    and "\<forall>i<k. listener_Close e (length tr + i) (the (order ! i)) = None"
    and "listener_Close e (length tr + k) (the (order ! k)) \<noteq> None"
  shows "Stop_loop e order tr =
           (Exited 1,
            tr @ map (\<lambda>ln. EvListenerClose (the ln) True) (take k order)
               @ [EvListenerClose (the (order ! k)) False,
                  SLogFatal ''Error occurred while closing listener''])"
  using assms
proof (induction order arbitrary: tr k)
  case Nil
  then show ?case by simp
next
  case (Cons ln lns)
  then obtain l where ln: "ln = Some l" by (cases ln) auto
  show ?case
  proof (cases k)
    case 0
    with Cons.prems(4) have "listener_Close e (length tr) l \<noteq> None" by (simp add: ln)
    then show ?thesis by (auto simp: ln 0)
  next
    case (Suc j)
    from Cons.prems(3) have first: "listener_Close e (length tr) l = None"
      by (auto simp: ln Suc)
    have j: "j < length lns" using Cons.prems(2) Suc by simp
    have before: "\<forall>i<j.
        listener_Close e (length (tr @ [EvListenerClose l True]) + i) (the (lns ! i)) = None"
    proof (intro allI impI)
      fix i assume "i < j"
      then have "Suc i < k" using Suc by simp
      with Cons.prems(3) have "listener_Close e (length tr + Suc i) (the ((ln # lns) ! Suc i)) = None"
        by blast
      then show "listener_Close e (length (tr @ [EvListenerClose l True]) + i) (the (lns ! i)) = None"
        by simp
    qed
    have at: "listener_Close e (length (tr @ [EvListenerClose l True]) + j) (the (lns ! j)) \<noteq> None"
      using Cons.prems(4) Suc by simp
    from Cons.prems(1) have "None \<notin> set lns" by simp
    from Cons.IH [OF this j before at] first show ?thesis by (simp add: ln Suc)
  qed
qed

lemma SafeClose_invariant:
  assumes "once_done sc = C_closed sc"
  shows "SafeClose sc = Inr \<lparr>C_closed = True, once_done = True\<rparr>"
proof (cases "once_done sc")
  case True
  with assms have "sc = \<lparr>C_closed = True, once_done = True\<rparr>" by (cases sc) simp
  with True show ?thesis by (simp add: SafeClose_def)
next
  case False
  with assms show ?thesis by (cases sc) (simp add: SafeClose_def close_chan_def)
qed

text \<open>
  Claim C3, as amended. \<^verbatim>\<open>Stop\<close> closes the signal and then closes the listeners one at a
  time, in the order the map hands them out. If every close succeeds, every listener has
  been closed, \<^verbatim>\<open>Stop\<close> prints its message and returns. If the close of a listener fails
  after all closes before it succeeded, the error is handed to \<^verbatim>\<open>log.Fatal\<close> and the process
  exits with status 1: the listeners after it are not closed and \<^verbatim>\<open>Stop\<close> does not return.
  (The keys are taken to be listeners, not \<^verbatim>\<open>nil\<close>, and the signal to be one that only
  \<^verbatim>\<open>SafeClose\<close> closes; the close of the \<open>i\<close>-th listener happens when \<open>i\<close> events of
  \<^verbatim>\<open>Stop\<close> have passed.)
\<close>

theorem Stop_exits_at_first_close_error:
  assumes "None \<notin> set order" and "once_done (Quit s) = C_closed (Quit s)"
  shows "((\<forall>i<length order. listener_Close e (length tr + i) (the (order ! i)) = None) \<longrightarrow>
            Stop e order (s, tr) =
              (Returned (), s\<lparr>Quit := \<lparr>C_closed = True, once_done = True\<rparr>\<rparr>,
               tr @ map (\<lambda>ln. EvListenerClose (the ln) True) order
                  @ [SPrint ''Stoped gracefully'']))
       \<and> (\<forall>k<length order.
            (\<forall>i<k. listener_Close e (length tr + i) (the (order ! i)) = None) \<and>
            listener_Close e (length tr + k) (the (order ! k)) \<noteq> None \<longrightarrow>
            Stop e order (s, tr) =
              (Exited 1, s\<lparr>Quit := \<lparr>C_closed = True, once_done = True\<rparr>\<rparr>,
               tr @ map (\<lambda>ln. EvListenerClose (the ln) True) (take k order)
                  @ [EvListenerClose (the (order ! k)) False,
                     SLogFatal ''Error occurred while closing listener'']))"
proof (intro conjI allI impI)
  note q = SafeClose_invariant [OF assms(2)]
  {
    assume "\<forall>i<length order. listener_Close e (length tr + i) (the (order ! i)) = None"
    from Stop_loop_succeed [OF assms(1) this]
    show "Stop e order (s, tr) =
              (Returned (), s\<lparr>Quit := \<lparr>C_closed = True, once_done = True\<rparr>\<rparr>,
               tr @ map (\<lambda>ln. EvListenerClose (the ln) True) order
                  @ [SPrint ''Stoped gracefully''])"
      by (simp add: Stop_def q)
  }
  {
    fix k
    assume k: "k < length order"
      and h: "(\<forall>i<k. listener_Close e (length tr + i) (the (order ! i)) = None) \<and>
            listener_Close e (length tr + k) (the (order ! k)) \<noteq> None"
    from h have h1: "\<forall>i<k. listener_Close e (length tr + i) (the (order ! i)) = None"
      and h2: "listener_Close e (length tr + k) (the (order ! k)) \<noteq> None"
      by blast+
    from Stop_loop_fail [OF assms(1) k h1 h2]
    show "Stop e order (s, tr) =
              (Exited 1, s\<lparr>Quit := \<lparr>C_closed = True, once_done = True\<rparr>\<rparr>,
               tr @ map (\<lambda>ln. EvListenerClose (the ln) True) (take k order)
                  @ [EvListenerClose (the (order ! k)) False,
                     SLogFatal ''Error occurred while closing listener''])"
      by (simp add: Stop_def q)
  }
qed

text \<open>
  The theorem at a server with two listeners: once with closes that succeed, once with a
  second close that fails.
\<close>

theorem Stop_exits_at_first_close_error_witness:
  "None \<notin> set [Some 1, Some (0::nat)] \<and>
   set [Some 1, Some 0] = dom (listener (example_server [True, True, True])) \<and>
   once_done (Quit (example_server [True, True, True])) =
     C_closed (Quit (example_server [True, True, True])) \<and>
   listener_Close example_env 0 1 = None \<and> listener_Close example_env 1 0 = None \<and>
   Stop example_env [Some 1, Some 0] (example_server [True, True, True], []) =
     (Returned (), (example_server [True, True, True])\<lparr>Quit := \<lparr>C_closed = True, once_done = True\<rparr>\<rparr>,
      [EvListenerClose 1 True, EvListenerClose 0 True, SPrint ''Stoped gracefully'']) \<and>
   listener_Close failing_close_env 0 1 = None \<and> listener_Close failing_close_env 1 0 \<noteq> None \<and>
   Stop failing_close_env [Some 1, Some 0] (example_server [True, True, True], []) =
     (Exited 1, (example_server [True, True, True])\<lparr>Quit := \<lparr>C_closed = True, once_done = True\<rparr>\<rparr>,
      [EvListenerClose 1 True, EvListenerClose 0 False,
       SLogFatal ''Error occurred while closing listener''])"
proof -
  have h1: "None \<notin> set [Some 1, Some (0::nat)]" by simp
  have h2: "once_done (Quit (example_server [True, True, True])) =
            C_closed (Quit (example_server [True, True, True]))"
    by (simp add: example_server_def NewSigChannel_def)
  have d: "set [Some 1, Some 0] = dom (listener (example_server [True, True, True]))"
    by (auto simp: example_server_def)
  have ok: "listener_Close example_env 0 1 = None" "listener_Close example_env 1 0 = None"
    by (simp_all add: example_env_def)
  have bad: "listener_Close failing_close_env 0 1 = None"
    "listener_Close failing_close_env 1 0 \<noteq> None"
    by (simp_all add: failing_close_env_def example_env_def)
  have all_ok: "\<forall>i<length [Some 1, Some (0::nat)].
      listener_Close example_env (length ([] :: server_event list) + i) (the ([Some 1, Some 0] ! i)) = None"
    by (simp add: example_env_def)
  from Stop_exits_at_first_close_error [OF h1 h2, where e = example_env and tr = "[]"] all_ok
  have r1: "Stop example_env [Some 1, Some 0] (example_server [True, True, True], []) =
     (Returned (), (example_server [True, True, True])\<lparr>Quit := \<lparr>C_closed = True, once_done = True\<rparr>\<rparr>,
      [] @ map (\<lambda>ln. EvListenerClose (the ln) True) [Some 1, Some 0]
         @ [SPrint ''Stoped gracefully''])"
    by blast
  have k: "(1::nat) < length [Some 1, Some (0::nat)]" by simp
  have fails: "(\<forall>i<1. listener_Close failing_close_env (length ([] :: server_event list) + i)
                   (the ([Some 1, Some 0] ! i)) = None) \<and>
      listener_Close failing_close_env (length ([] :: server_event list) + 1)
        (the ([Some 1, Some 0] ! 1)) \<noteq> None"
    by (simp add: failing_close_env_def example_env_def)
  from Stop_exits_at_first_close_error [OF h1 h2, where e = failing_close_env and tr = "[]"] k fails
  have r2: "Stop failing_close_env [Some 1, Some 0] (example_server [True, True, True], []) =
     (Exited 1, (example_server [True, True, True])\<lparr>Quit := \<lparr>C_closed = True, once_done = True\<rparr>\<rparr>,
      [] @ map (\<lambda>ln. EvListenerClose (the ln) True) (take 1 [Some 1, Some 0])
         @ [EvListenerClose (the ([Some 1, Some 0] ! 1)) False,
            SLogFatal ''Error occurred while closing listener''])"
    by blast
  from r1 have r1': "Stop example_env [Some 1, Some 0] (example_server [True, True, True], []) =
     (Returned (), (example_server [True, True, True])\<lparr>Quit := \<lparr>C_closed = True, once_done = True\<rparr>\<rparr>,
      [EvListenerClose 1 True, EvListenerClose 0 True, SPrint ''Stoped gracefully''])"
    by simp
  from r2 have r2': "Stop failing_close_env [Some 1, Some 0] (example_server [True, True, True], []) =
     (Exited 1, (example_server [True, True, True])\<lparr>Quit := \<lparr>C_closed = True, once_done = True\<rparr>\<rparr>,
      [EvListenerClose 1 True, EvListenerClose 0 False,
       SLogFatal ''Error occurred while closing listener''])"
    by simp
  from h1 d h2 ok r1' bad r2' show ?thesis by blast
qed

text \<open>
  A close error is fatal and ends the loop: with two listeners of which the first fails
  to close, \<^verbatim>\<open>Stop\<close> exits the process and the second listener is never closed.
\<close>

theorem Stop_close_error_is_fatal_counterexample:
  "set [Some 0, Some 1] = dom (listener (example_server [True, True, True])) \<and>
   Stop failing_close_env [Some 0, Some 1] (example_server [True, True, True], []) =
     (Exited 1, (example_server [True, True, True])\<lparr>Quit := \<lparr>C_closed = True, once_done = True\<rparr>\<rparr>,
      [EvListenerClose 0 False, SLogFatal ''Error occurred while closing listener''])"
proof -
  have d: "set [Some 0, Some 1] = dom (listener (example_server [True, True, True]))"
    by (auto simp: example_server_def)
  have "Stop failing_close_env [Some 0, Some 1] (example_server [True, True, True], []) =
     (Exited 1, (example_server [True, True, True])\<lparr>Quit := \<lparr>C_closed = True, once_done = True\<rparr>\<rparr>,
      [EvListenerClose 0 False, SLogFatal ''Error occurred while closing listener''])"
    by (simp add: Stop_def SafeClose_def close_chan_def example_server_def NewSigChannel_def
        failing_close_env_def example_env_def)
  with d show ?thesis by blast
qed

section \<open>Starting the server\<close>

lemma digits_small: "n < 10 \<Longrightarrow> digits n = [''0123456789'' ! n]"
  by (subst digits.simps) simp

lemma digits_big: "\<not> n < 10 \<Longrightarrow> digits n = digits (n div 10) @ [''0123456789'' ! (n mod 10)]"
  by (subst digits.simps) simp

lemma Itoa_5001: "Itoa 5001 = ''5001''"
  by (simp add: Itoa_def digits_small digits_big)

lemma Itoa_5002: "Itoa 5002 = ''5002''"
  by (simp add: Itoa_def digits_small digits_big)

text \<open>
  Claim C4, where the code departs from it. When \<^verbatim>\<open>net.ListenTCP\<close> fails for a port,
  whether the address resolved or not, \<^verbatim>\<open>NewServer\<close> logs the error and then stores the
  \<^verbatim>\<open>nil\<close> listener in the map, bound to the application: the port is not skipped.
\<close>

theorem NewServer_port_failed_listen:
  assumes "\<And>k. net_ListenTCP e k
              (case net_ResolveTCPAddr e (''127.0.0.1:'' @ Itoa port) of
                 Inl err \<Rightarrow> None | Inr ta \<Rightarrow> Some ta) \<noteq> None"
  shows "case NewServer_port e name port (s, n, tr) of
           (s', n', tr') \<Rightarrow> listener s' = (listener s)(None \<mapsto> name) \<and> n' = n"
proof (cases "net_ResolveTCPAddr e (''127.0.0.1:'' @ Itoa port)")
  case (Inl err)
  with assms have "\<And>k. net_ListenTCP e k None \<noteq> None" by simp
  with Inl show ?thesis
    by (auto simp: NewServer_port_def Let_def split: option.splits)
next
  case (Inr ta)
  with assms have "\<And>k. net_ListenTCP e k (Some ta) \<noteq> None" by simp
  with Inr show ?thesis
    by (auto simp: NewServer_port_def Let_def split: option.splits)
qed

text \<open>
  The theorem at a failing input: port 5001 is in use. The binding of \<^verbatim>\<open>nil\<close> is recorded;
  the next port and the pool are set up as usual.
\<close>

theorem NewServer_port_failed_listen_witness:
  "(\<forall>k. net_ListenTCP example_env k (Some (loopback 5001)) \<noteq> None) \<and>
   listener (fst (NewServer_port example_env ''app1'' 5001
       (\<lparr>Quit = NewSigChannel, listener = Map.empty, serverPool = Map.empty\<rparr>, 0, [])))
     = [None \<mapsto> ''app1''] \<and>
   NewServer example_env example_apps =
     (\<lparr>Quit = NewSigChannel,
       listener = [None \<mapsto> ''app1'', Some 0 \<mapsto> ''app1''],
       serverPool = [''app1'' \<mapsto> NewServerPool [''127.0.0.1:9001'']]\<rparr>,
      1,
      [EvResolveTCPAddr ''127.0.0.1:5001'',
       EvListenTCP (Some (loopback 5001)) None,
       SLog ''Unable to listen'',
       EvResolveTCPAddr ''127.0.0.1:5002'',
       EvListenTCP (Some (loopback 5002)) (Some 0),
       GoHealthCheck ''app1'',
       GoServe])"
proof -
  have inuse: "\<forall>k. net_ListenTCP example_env k (Some (loopback 5001)) \<noteq> None"
    by (simp add: example_env_def)
  have h: "\<And>k. net_ListenTCP example_env k
              (case net_ResolveTCPAddr example_env (''127.0.0.1:'' @ Itoa 5001) of
                 Inl err \<Rightarrow> None | Inr ta \<Rightarrow> Some ta) \<noteq> None"
    by (simp add: example_env_def Itoa_5001)
  have port: "listener (fst (NewServer_port example_env ''app1'' 5001
       (\<lparr>Quit = NewSigChannel, listener = Map.empty, serverPool = Map.empty\<rparr>, 0, [])))
     = [None \<mapsto> ''app1'']"
    using NewServer_port_failed_listen [OF h, where name = "''app1''" and n = 0 and tr = "[]"
        and s = "\<lparr>Quit = NewSigChannel, listener = Map.empty, serverPool = Map.empty\<rparr>"]
    by (simp add: split_beta)
  have all: "NewServer example_env example_apps =
     (\<lparr>Quit = NewSigChannel,
       listener = [None \<mapsto> ''app1'', Some 0 \<mapsto> ''app1''],
       serverPool = [''app1'' \<mapsto> NewServerPool [''127.0.0.1:9001'']]\<rparr>,
      1,
      [EvResolveTCPAddr ''127.0.0.1:5001'',
       EvListenTCP (Some (loopback 5001)) None,
       SLog ''Unable to listen'',
       EvResolveTCPAddr ''127.0.0.1:5002'',
       EvListenTCP (Some (loopback 5002)) (Some 0),
       GoHealthCheck ''app1'',
       GoServe])"
    by (simp add: NewServer_def NewServer_app_def NewServer_port_def example_apps_def
        example_env_def Itoa_5001 Itoa_5002 loopback_def)
  from inuse port all show ?thesis by blast
qed

section \<open>Routing without a live backend\<close>





section \<open>One relay for each connection\<close>
























end
